theory Spec2Isabelle
  imports Main "HOL-Library.Sublist"
begin

section \<open>Python values\<close>

text \<open>
  The pipeline moves Python values around: the strings returned by the language model
  and the objects \<^verbatim>\<open>json.loads\<close> builds from them.
  A Python \<^verbatim>\<open>str\<close> is modelled as a \<^typ>\<open>string\<close> whose characters are the code
  points below 256; offsets and lengths count characters, as Python does. A \<^verbatim>\<open>dict\<close>
  is the list of its items in insertion order. Floating point numbers are left out of
  the value type.
\<close>

datatype pyval =
    PNone
  | PBool bool
  | PInt int
  | PStr string
  | PList "pyval list"
  | PDict "(string \<times> pyval) list"

datatype error = ValueError string | TypeError | IndexError

text \<open>Truth value of an object, as \<^verbatim>\<open>if x:\<close> and \<^verbatim>\<open>not x\<close> test it.\<close>

fun truthy :: "pyval \<Rightarrow> bool" where
  "truthy PNone = False"
| "truthy (PBool b) = b"
| "truthy (PInt i) = (i \<noteq> 0)"
| "truthy (PStr s) = (s \<noteq> [])"
| "truthy (PList xs) = (xs \<noteq> [])"
| "truthy (PDict d) = (d \<noteq> [])"

fun isinstance_list :: "pyval \<Rightarrow> bool" where
  "isinstance_list (PList xs) = True"
| "isinstance_list v = False"

text \<open>\<^verbatim>\<open>d.get(k, default)\<close> on the items of a dict.\<close>

definition dict_get :: "(string \<times> pyval) list \<Rightarrow> string \<Rightarrow> pyval \<Rightarrow> pyval" where
  "dict_get d k dflt = (case map_of d k of None \<Rightarrow> dflt | Some v \<Rightarrow> v)"

subsection \<open>\<^verbatim>\<open>str\<close> and \<^verbatim>\<open>repr\<close>\<close>

fun str_nat :: "nat \<Rightarrow> string" where
  "str_nat n =
     (if n < 10 then [''0123456789'' ! n]
      else str_nat (n div 10) @ [''0123456789'' ! (n mod 10)])"

declare str_nat.simps [simp del]

definition str_int :: "int \<Rightarrow> string" where
  "str_int i = (if i < 0 then ''-'' @ str_nat (nat (- i)) else str_nat (nat i))"

definition hex2 :: "char \<Rightarrow> string" where
  "hex2 c = [''0123456789abcdef'' ! (of_char c div 16), ''0123456789abcdef'' ! (of_char c mod 16)]"

definition printable :: "char \<Rightarrow> bool" where
  "printable c =
     (let n = (of_char c :: nat)
      in 32 \<le> n \<and> n \<noteq> 127 \<and> \<not> (128 \<le> n \<and> n \<le> 160) \<and> n \<noteq> 173)"

text \<open>
  \<^verbatim>\<open>repr\<close> of a string: single quotes, unless the string holds a single quote and no
  double quote; the quote and the backslash are escaped, tab, newline and carriage
  return have their letters, any other unprintable character is written in hexadecimal.
\<close>

definition repr_quote :: "string \<Rightarrow> char" where
  "repr_quote s = (if CHR 0x27 \<in> set s \<and> CHR 0x22 \<notin> set s then CHR 0x22 else CHR 0x27)"

definition repr_char :: "char \<Rightarrow> char \<Rightarrow> string" where
  "repr_char q c =
     (if c = q \<or> c = CHR 0x5C then [CHR 0x5C, c]
      else if c = CHR 0x09 then [CHR 0x5C, CHR ''t'']
      else if c = CHR 0x0A then [CHR 0x5C, CHR ''n'']
      else if c = CHR 0x0D then [CHR 0x5C, CHR ''r'']
      else if printable c then [c]
      else [CHR 0x5C, CHR ''x''] @ hex2 c)"

definition repr_str :: "string \<Rightarrow> string" where
  "repr_str s = (let q = repr_quote s in [q] @ concat (map (repr_char q) s) @ [q])"

fun join :: "string \<Rightarrow> string list \<Rightarrow> string" where
  "join sep [] = []"
| "join sep [x] = x"
| "join sep (x # y # ys) = x @ sep @ join sep (y # ys)"

fun py_repr :: "pyval \<Rightarrow> string" where
  "py_repr PNone = ''None''"
| "py_repr (PBool b) = (if b then ''True'' else ''False'')"
| "py_repr (PInt i) = str_int i"
| "py_repr (PStr s) = repr_str s"
| "py_repr (PList xs) = ''['' @ join '', '' (map py_repr xs) @ '']''"
| "py_repr (PDict d) =
     ''{'' @ join '', '' (map (\<lambda>kv. repr_str (fst kv) @ '': '' @ py_repr (snd kv)) d) @ ''}''"

text \<open>\<^verbatim>\<open>str(x)\<close>, which is also what an f-string writes for \<^verbatim>\<open>{x}\<close>.\<close>

fun py_str :: "pyval \<Rightarrow> string" where
  "py_str (PStr s) = s"
| "py_str v = py_repr v"

subsection \<open>String methods\<close>

text \<open>
  \<^verbatim>\<open>str.isspace\<close> on one character, for the code points below 256, and
  \<^verbatim>\<open>str.strip()\<close>, which removes the whitespace at both ends.
\<close>

definition isspace :: "char \<Rightarrow> bool" where
  "isspace c =
     (let n = (of_char c :: nat)
      in (9 \<le> n \<and> n \<le> 13) \<or> (28 \<le> n \<and> n \<le> 32) \<or> n = 133 \<or> n = 160)"

definition py_strip :: "string \<Rightarrow> string" where
  "py_strip s = rev (dropWhile isspace (rev (dropWhile isspace s)))"

text \<open>
  \<^verbatim>\<open>text.find(sub, start)\<close> is the lowest offset, not below \<open>start\<close>, at which \<open>sub\<close>
  occurs in \<open>text\<close>; the result \<open>-1\<close> of Python is \<^term>\<open>None\<close> here. The empty string
  occurs at every offset up to the length of the text. \<^verbatim>\<open>text.rfind(sub)\<close> is the
  highest such offset.
\<close>

fun find_in :: "string \<Rightarrow> string \<Rightarrow> nat \<Rightarrow> nat option" where
  "find_in sub [] i = (if sub = [] then Some i else None)"
| "find_in sub (c # cs) i = (if prefix sub (c # cs) then Some i else find_in sub cs (Suc i))"

definition py_find :: "string \<Rightarrow> string \<Rightarrow> nat \<Rightarrow> nat option" where
  "py_find txt sub start = (if start \<le> length txt then find_in sub (drop start txt) start else None)"

fun rfind_in :: "string \<Rightarrow> string \<Rightarrow> nat \<Rightarrow> nat option" where
  "rfind_in sub [] i = (if sub = [] then Some i else None)"
| "rfind_in sub (c # cs) i =
     (case rfind_in sub cs (Suc i) of
        Some p \<Rightarrow> Some p
      | None \<Rightarrow> if prefix sub (c # cs) then Some i else None)"

definition py_rfind :: "string \<Rightarrow> string \<Rightarrow> nat option" where
  "py_rfind t sub = rfind_in sub t 0"

text \<open>The slice \<^verbatim>\<open>s[i:j]\<close> for offsets that are not negative.\<close>

definition slice :: "string \<Rightarrow> nat \<Rightarrow> nat \<Rightarrow> string" where
  "slice s i j = take (j - i) (drop i s)"

text \<open>\<open>sub\<close> occurs in the text at offset \<open>p\<close>.\<close>

definition occurs_at :: "string \<Rightarrow> string \<Rightarrow> nat \<Rightarrow> bool" where
  "occurs_at txt sub p = (p \<le> length txt \<and> prefix sub (drop p txt))"

text \<open>
  What \<^const>\<open>py_find\<close> returns is an occurrence, it is not before the start of the
  search, and no occurrence lies between the two; when it returns nothing there is no
  occurrence from the start of the search on. The search loop of the span resolver
  terminates because of the first of these facts.
\<close>

lemma find_in_Some:
  "find_in sub t i = Some p \<Longrightarrow> i \<le> p \<and> p - i \<le> length t \<and> prefix sub (drop (p - i) t) \<and>
     (\<forall>q. q < p - i \<longrightarrow> \<not> prefix sub (drop q t))"
proof (induction t arbitrary: i)
  case Nil
  then show ?case by (auto split: if_splits)
next
  case (Cons c cs)
  show ?case
  proof (cases "prefix sub (c # cs)")
    case True
    with Cons.prems show ?thesis by simp
  next
    case False
    with Cons.prems have rec: "find_in sub cs (Suc i) = Some p" by simp
    from Cons.IH [OF rec] have ih: "Suc i \<le> p" "p - Suc i \<le> length cs"
      "prefix sub (drop (p - Suc i) cs)" "\<forall>q. q < p - Suc i \<longrightarrow> \<not> prefix sub (drop q cs)"
      by simp_all
    from ih(1) have eq: "p - i = Suc (p - Suc i)" by simp
    have "\<not> prefix sub (drop q (c # cs))" if "q < p - i" for q
    proof (cases q)
      case 0
      with False show ?thesis by simp
    next
      case (Suc q')
      with that eq ih(4) show ?thesis by simp
    qed
    with ih eq show ?thesis by simp
  qed
qed

lemma find_in_None:
  "find_in sub t i = None \<Longrightarrow> q \<le> length t \<Longrightarrow> \<not> prefix sub (drop q t)"
proof (induction t arbitrary: i q)
  case Nil
  then show ?case by (auto split: if_splits)
next
  case (Cons c cs)
  from Cons.prems(1) have np: "\<not> prefix sub (c # cs)" and rec: "find_in sub cs (Suc i) = None"
    by (simp_all split: if_splits)
  show ?case
  proof (cases q)
    case 0
    with np show ?thesis by simp
  next
    case (Suc q')
    with Cons.prems(2) Cons.IH [OF rec, of q'] show ?thesis by simp
  qed
qed

lemma py_find_Some:
  assumes "py_find txt sub s = Some p"
  shows "s \<le> p" and "occurs_at txt sub p" and "\<And>q. s \<le> q \<Longrightarrow> q < p \<Longrightarrow> \<not> occurs_at txt sub q"
proof -
  from assms have s: "s \<le> length txt" and f: "find_in sub (drop s txt) s = Some p"
    by (simp_all add: py_find_def split: if_splits)
  note fs = find_in_Some [OF f]
  from fs show "s \<le> p" by simp
  from fs s have "p - s + s = p" "p \<le> length txt" by auto
  with fs show "occurs_at txt sub p" by (simp add: occurs_at_def)
  fix q assume "s \<le> q" "q < p"
  then have "q - s < p - s" and qs: "q - s + s = q" by simp_all
  with fs have "\<not> prefix sub (drop (q - s) (drop s txt))" by blast
  with qs show "\<not> occurs_at txt sub q" by (simp add: occurs_at_def)
qed

lemma py_find_None:
  assumes "py_find txt sub s = None" and "s \<le> q"
  shows "\<not> occurs_at txt sub q"
proof (cases "q \<le> length txt")
  case True
  with assms have f: "find_in sub (drop s txt) s = None"
    by (simp add: py_find_def split: if_splits)
  from assms(2) have "q - s + s = q" by simp
  with find_in_None [OF f, of "q - s"] True assms(2) show ?thesis
    by (simp add: occurs_at_def)
next
  case False
  then show ?thesis by (simp add: occurs_at_def)
qed

section \<open>The document state and the router\<close>

record docState =
  input :: string
  file_ext :: string
  "text" :: string
  instances :: "pyval list"
  exclude_filter :: "string list"

datatype node = OCR | PDF_Parser | CSV_Parser

definition input_router :: "docState \<Rightarrow> error + node" where
  "input_router doc_state =
     (let ext = file_ext doc_state
      in if ext = ''png'' then Inr OCR
         else if ext = ''pdf'' then Inr PDF_Parser
         else if ext = ''csv'' then Inr CSV_Parser
         else Inl (ValueError ''Invalid file type''))"

section \<open>The tabular extractor\<close>

text \<open>
  \<^verbatim>\<open>pd.read_csv\<close> belongs to pandas; it is a parameter of the model, and it either
  fails or returns a data frame. The model of a frame holds what the extractor reads
  from it: the column labels \<^verbatim>\<open>df.columns\<close>, and the pairs that \<^verbatim>\<open>df.iterrows()\<close>
  yields, in order, each made of the index label of a record (\<^verbatim>\<open>row[0]\<close>) and the values
  of the record (\<^verbatim>\<open>row[1].values\<close>). pandas decides what these are: the label is the
  position of the record only for the default index, and the values of one record are
  cast to one type, so that an integer beside a decimal number comes as a float. The
  type \<open>'v\<close> of labels and values, and the function \<open>fmt\<close> that gives the text an
  f-string writes for one of them, are parameters as well.
\<close>

record 'v dataframe =
  columns :: "string list"
  iterrows :: "('v \<times> 'v list) list"

text \<open>The inner loop: \<^verbatim>\<open>for item,col in zip(row[1].values,df.columns): text += f"{col}: {item}\n"\<close>.\<close>

fun columns_loop :: "('v \<Rightarrow> string) \<Rightarrow> string \<Rightarrow> ('v \<times> string) list \<Rightarrow> string" where
  "columns_loop fmt out [] = out"
| "columns_loop fmt out (ic # rest) =
     columns_loop fmt (out @ snd ic @ '': '' @ fmt (fst ic) @ [CHR 0x0A]) rest"

text \<open>The outer loop \<^verbatim>\<open>for row in df.iterrows()\<close>.\<close>

fun rows_loop ::
  "('v \<Rightarrow> string) \<Rightarrow> string list \<Rightarrow> string \<Rightarrow> ('v \<times> 'v list) list \<Rightarrow> string" where
  "rows_loop fmt cols out [] = out"
| "rows_loop fmt cols out (row # rest) =
     rows_loop fmt cols
       (columns_loop fmt (out @ ''Index: '' @ fmt (fst row) @ [CHR 0x0A]) (zip (snd row) cols)
          @ [CHR 0x0A])
       rest"

definition csv_parser_tool ::
  "(string \<Rightarrow> error + 'v dataframe) \<Rightarrow> ('v \<Rightarrow> string) \<Rightarrow> docState \<Rightarrow> error + docState" where
  "csv_parser_tool read_csv fmt doc_state =
     (case read_csv (input doc_state) of
        Inl e \<Rightarrow> Inl e
      | Inr df \<Rightarrow> Inr (doc_state\<lparr>text := rows_loop fmt (columns df) [] (iterrows df)\<rparr>))"

text \<open>
  The lines of the columns of one record: one line \<^verbatim>\<open>column: value\<close> per column, in the
  declared order.
\<close>

definition column_lines :: "('v \<Rightarrow> string) \<Rightarrow> string list \<Rightarrow> 'v list \<Rightarrow> string" where
  "column_lines fmt cols cells =
     concat (map (\<lambda>j. cols ! j @ '': '' @ fmt (cells ! j) @ [CHR 0x0A]) [0..<length cols])"

text \<open>
  The block the extractor writes for a record: the line of its index label, the lines
  of its columns, and an empty line.
\<close>

definition label_block :: "('v \<Rightarrow> string) \<Rightarrow> string list \<Rightarrow> 'v \<times> 'v list \<Rightarrow> string" where
  "label_block fmt cols row =
     ''Index: '' @ fmt (fst row) @ [CHR 0x0A] @ column_lines fmt cols (snd row) @ [CHR 0x0A]"

text \<open>
  The block the specification describes for record \<open>i\<close>: the line of its ordinal \<open>i\<close>,
  the lines of its columns, and an empty line.
\<close>

definition record_block :: "('v \<Rightarrow> string) \<Rightarrow> string list \<Rightarrow> nat \<Rightarrow> 'v list \<Rightarrow> string" where
  "record_block fmt cols i cells =
     ''Index: '' @ str_nat i @ [CHR 0x0A] @ column_lines fmt cols cells @ [CHR 0x0A]"

text \<open>Every record of a frame has one value per column.\<close>

definition frame_shape :: "'v dataframe \<Rightarrow> bool" where
  "frame_shape df = list_all (\<lambda>row. length (snd row) = length (columns df)) (iterrows df)"

section \<open>The exclusion clause of the detection prompt\<close>

text \<open>The loop \<^verbatim>\<open>for item in filter_list[:-1]: text += f" {item},"\<close>.\<close>

fun exclusion_items :: "string \<Rightarrow> string list \<Rightarrow> string" where
  "exclusion_items out [] = out"
| "exclusion_items out (item # rest) = exclusion_items (out @ '' '' @ item @ '','') rest"

definition get_exclusion :: "string list \<Rightarrow> string" where
  "get_exclusion filter_list =
     (if filter_list \<noteq> [] then
        (let out = [] @ '' except PHI instances of the type'';
             out = exclusion_items out (butlast filter_list);
             out = (if length filter_list > 1 then out @ '' and'' else out)
         in out @ '' '' @ last filter_list @ ''.'')
      else [])"

section \<open>The detection and classification stages\<close>

text \<open>
  The language model and \<^verbatim>\<open>json.loads\<close> are outside the repository. A stage is
  modelled from the point where the model's answer has arrived: it takes the content of
  the response, and the JSON parser as a parameter that returns \<^term>\<open>None\<close> where
  \<^verbatim>\<open>json.loads\<close> raises. \<^verbatim>\<open>doc_state["instances"].append(x)\<close> is
  \<^term>\<open>append_instances\<close>.
\<close>

definition append_instances :: "docState \<Rightarrow> pyval \<Rightarrow> docState" where
  "append_instances doc_state x = doc_state\<lparr>instances := instances doc_state @ [x]\<rparr>"

definition phi_identifier :: "(string \<Rightarrow> pyval option) \<Rightarrow> string \<Rightarrow> docState \<Rightarrow> docState" where
  "phi_identifier json_loads content doc_state =
     (if prefix ''['' (py_strip content) then
        (case json_loads (py_strip content) of
           Some phi_instances \<Rightarrow> append_instances doc_state phi_instances
         | None \<Rightarrow> append_instances doc_state (PList []))
      else
        (let json_start = py_find content ''['' 0;
             json_end = (case py_rfind content '']'' of None \<Rightarrow> 0 | Some j \<Rightarrow> j + 1)
         in case json_start of
              Some js \<Rightarrow>
                if json_end > js then
                  (case json_loads (slice content js json_end) of
                     Some phi_instances \<Rightarrow> append_instances doc_state phi_instances
                   | None \<Rightarrow> append_instances doc_state (PList []))
                else append_instances doc_state (PList [])
            | None \<Rightarrow> append_instances doc_state (PList [])))"

text \<open>
  The classification stage puts \<^verbatim>\<open>doc_state['instances'][-1]\<close> into its prompt
  before it calls the model, which raises \<^verbatim>\<open>IndexError\<close> on an empty history.
\<close>

definition phi_rationale :: "(string \<Rightarrow> pyval option) \<Rightarrow> string \<Rightarrow> docState \<Rightarrow> error + docState" where
  "phi_rationale json_loads response_content doc_state =
     (if instances doc_state = [] then Inl IndexError
      else
        (let content = py_strip response_content
         in if prefix ''['' (py_strip content) then
              (case json_loads content of
                 Some phi_instances \<Rightarrow> Inr (append_instances doc_state phi_instances)
               | None \<Rightarrow> Inr (append_instances doc_state (last (instances doc_state))))
            else
              (let json_start = py_find content ''['' 0;
                   json_end = (case py_rfind content '']'' of None \<Rightarrow> 0 | Some j \<Rightarrow> j + 1)
               in case json_start of
                    Some js \<Rightarrow>
                      if json_end > js then
                        (case json_loads (slice content js json_end) of
                           Some phi_instances \<Rightarrow> Inr (append_instances doc_state phi_instances)
                         | None \<Rightarrow> Inr (append_instances doc_state (last (instances doc_state))))
                      else Inr (append_instances doc_state (last (instances doc_state)))
                  | None \<Rightarrow> Inr (append_instances doc_state (last (instances doc_state))))))"

text \<open>
  The specification's account of response parsing: when the first character of the
  body that is not whitespace opens an array, the whole body (without the whitespace
  around it) is parsed; otherwise the text from the first opening bracket to the last
  closing bracket is parsed, if there is one. A body cannot be parsed when no such text
  exists or the parser fails on it.
\<close>

definition bracket_text :: "string \<Rightarrow> string option" where
  "bracket_text body =
     (case (py_find body ''['' 0, py_rfind body '']'') of
        (Some i, Some j) \<Rightarrow> if i < j + 1 then Some (slice body i (j + 1)) else None
      | _ \<Rightarrow> None)"

definition array_text :: "string \<Rightarrow> string option" where
  "array_text body =
     (if prefix ''['' (py_strip body) then Some (py_strip body) else bracket_text body)"

definition unparseable :: "(string \<Rightarrow> pyval option) \<Rightarrow> string \<Rightarrow> bool" where
  "unparseable json_loads body =
     (case array_text body of None \<Rightarrow> True | Some a \<Rightarrow> json_loads a = None)"

section \<open>The span resolver\<close>

text \<open>
  An entry of \<^verbatim>\<open>instances_with_positions\<close>. The entry keeps the instance it came
  from, which is always a dict; the record holds the items of that dict.
\<close>

record span =
  start :: nat
  "end" :: nat
  "value" :: string
  phi_type :: pyval
  original_instance :: "(string \<times> pyval) list"

text \<open>The inner \<^verbatim>\<open>for existing in instances_with_positions\<close> loop, which sets \<^verbatim>\<open>overlapping\<close>.\<close>

definition overlapping :: "span list \<Rightarrow> nat \<Rightarrow> string \<Rightarrow> bool" where
  "overlapping instances_with_positions pos val =
     list_ex (\<lambda>existing. \<not> (pos \<ge> end existing \<or> pos + length val \<le> start existing))
       instances_with_positions"

text \<open>
  The \<^verbatim>\<open>while True\<close> loop for one instance: it returns the list of accepted spans as
  the loop leaves it, either unchanged (the value is not found any more) or with one
  span more (the first occurrence found that overlaps no accepted span).
\<close>

function find_loop ::
  "string \<Rightarrow> string \<Rightarrow> pyval \<Rightarrow> (string \<times> pyval) list \<Rightarrow> span list \<Rightarrow> nat \<Rightarrow> span list" where
  "find_loop txt val ptype inst instances_with_positions search_start =
     (case py_find txt val search_start of
        None \<Rightarrow> instances_with_positions
      | Some pos \<Rightarrow>
          if \<not> overlapping instances_with_positions pos val
          then instances_with_positions @
                 [\<lparr>start = pos, end = pos + length val, value = val, phi_type = ptype,
                   original_instance = inst\<rparr>]
          else find_loop txt val ptype inst instances_with_positions (pos + 1))"
  by pat_completeness auto
termination
proof (relation "measure (\<lambda>(t, v, ptype, inst, iwp, search_start). Suc (length t) - search_start)",
    goal_cases)
  case 1
  show ?case by simp
next
  case (2 t v ptype inst iwp search_start pos)
  from py_find_Some(1,2) [OF 2(1)] have "search_start \<le> pos" "pos \<le> length t"
    by (simp_all add: occurs_at_def)
  then show ?case by simp
qed

declare find_loop.simps [simp del]

text \<open>
  The body of \<^verbatim>\<open>for instance in phi_instances\<close>. The guard
  \<^verbatim>\<open>'value' in instance and instance['value']\<close> raises \<^verbatim>\<open>TypeError\<close> on an instance
  that is no container, and on a string or a list that holds \<^verbatim>\<open>'value'\<close>.
\<close>

definition process_instance :: "string \<Rightarrow> span list \<Rightarrow> pyval \<Rightarrow> error + span list" where
  "process_instance txt instances_with_positions inst =
     (case inst of
        PDict d \<Rightarrow>
          (case map_of d ''value'' of
             None \<Rightarrow> Inr instances_with_positions
           | Some v \<Rightarrow>
               if truthy v
               then Inr (find_loop txt (py_strip (py_str v))
                           (dict_get d ''PHI type'' (dict_get d ''type'' (PStr ''Unknown'')))
                           d instances_with_positions 0)
               else Inr instances_with_positions)
      | PStr s \<Rightarrow>
          if py_find s ''value'' 0 \<noteq> None then Inl TypeError else Inr instances_with_positions
      | PList xs \<Rightarrow>
          if PStr ''value'' \<in> set xs then Inl TypeError else Inr instances_with_positions
      | _ \<Rightarrow> Inl TypeError)"

fun for_instances :: "string \<Rightarrow> span list \<Rightarrow> pyval list \<Rightarrow> error + span list" where
  "for_instances txt instances_with_positions [] = Inr instances_with_positions"
| "for_instances txt instances_with_positions (inst # rest) =
     (case process_instance txt instances_with_positions inst of
        Inl e \<Rightarrow> Inl e
      | Inr iwp \<Rightarrow> for_instances txt iwp rest)"

text \<open>
  \<^verbatim>\<open>instances_with_positions.sort(key=lambda x: x['start'], reverse=True)\<close>: Python's
  sort is stable, also when reversed, so spans with the same start keep their order.
\<close>

fun insort_desc :: "span \<Rightarrow> span list \<Rightarrow> span list" where
  "insort_desc x [] = [x]"
| "insort_desc x (y # ys) = (if start x \<ge> start y then x # y # ys else y # insort_desc x ys)"

definition sort_desc :: "span list \<Rightarrow> span list" where
  "sort_desc xs = foldr insort_desc xs []"

definition highlighted_value :: "span \<Rightarrow> string" where
  "highlighted_value inst =
     (let tooltip_info = ''PHI Type: '' @ py_str (phi_type inst);
          tooltip_info =
            (case map_of (original_instance inst) ''PHI risk rationale'' of
               None \<Rightarrow> tooltip_info
             | Some r \<Rightarrow> tooltip_info @ ''&#10;Risk: '' @ py_str r)
      in ''<span class=\"phi-highlight\" title=\"'' @ tooltip_info @ ''\">'' @ value inst @ ''</span>'')"

fun apply_highlighting :: "string \<Rightarrow> span list \<Rightarrow> string" where
  "apply_highlighting highlighted_text [] = highlighted_text"
| "apply_highlighting highlighted_text (inst # rest) =
     apply_highlighting
       (take (start inst) highlighted_text @ highlighted_value inst @ drop (end inst) highlighted_text)
       rest"

definition highlight_phi_instances :: "string \<Rightarrow> pyval \<Rightarrow> error + string" where
  "highlight_phi_instances txt phi_instances =
     (if \<not> truthy phi_instances \<or> \<not> isinstance_list phi_instances then Inr txt
      else case phi_instances of
             PList xs \<Rightarrow>
               (case for_instances txt [] xs of
                  Inl e \<Rightarrow> Inl e
                | Inr iwp \<Rightarrow> Inr (apply_highlighting txt (sort_desc iwp)))
           | _ \<Rightarrow> Inr txt)"

subsection \<open>Notions used in the statements\<close>

text \<open>The span the search loop appends for an occurrence at \<open>pos\<close>.\<close>

definition new_span :: "nat \<Rightarrow> string \<Rightarrow> pyval \<Rightarrow> (string \<times> pyval) list \<Rightarrow> span" where
  "new_span pos val ptype inst =
     \<lparr>start = pos, end = pos + length val, value = val, phi_type = ptype, original_instance = inst\<rparr>"

text \<open>Two spans do not overlap: one ends where or before the other starts.\<close>

definition disjoint_spans :: "span \<Rightarrow> span \<Rightarrow> bool" where
  "disjoint_spans a b = (end a \<le> start b \<or> end b \<le> start a)"

text \<open>The range of an occurrence of \<open>val\<close> at \<open>p\<close> meets no range accepted so far.\<close>

definition free_at :: "span list \<Rightarrow> nat \<Rightarrow> string \<Rightarrow> bool" where
  "free_at accepted p val =
     (\<forall>e \<in> set accepted. {p..<p + length val} \<inter> {start e..<end e} = {})"

text \<open>
  A span lies where its value occurs in the text, and a span of length zero lies at
  offset 0.
\<close>

definition anchored :: "string \<Rightarrow> span \<Rightarrow> bool" where
  "anchored t e =
     (occurs_at t (value e) (start e) \<and> end e = start e + length (value e) \<and>
      (value e = [] \<longrightarrow> start e = 0))"

text \<open>
  The annotation of the text with all spans at once, position by position: at every
  offset first the markup of the spans that start there, then the character of the
  text unless a span covers it.
\<close>

definition annotation_piece :: "string \<Rightarrow> span list \<Rightarrow> nat \<Rightarrow> string" where
  "annotation_piece t spans p =
     concat (map highlighted_value (filter (\<lambda>s. start s = p) spans)) @
     (if p < length t \<and> \<not> list_ex (\<lambda>s. start s \<le> p \<and> p < end s) spans then [t ! p] else [])"

definition reference_annotation :: "string \<Rightarrow> span list \<Rightarrow> string" where
  "reference_annotation t spans = concat (map (annotation_piece t spans) [0..<Suc (length t)])"

section \<open>The router\<close>

text \<open>
  Claim C5: the router sends the tag png to the OCR extractor, pdf to the PDF extractor
  and csv to the CSV extractor, whatever the other fields of the state hold, and for
  every other tag it fails (the source raises \<^verbatim>\<open>ValueError("Invalid file type")\<close>)
  and names no extractor.
\<close>

theorem input_router_total:
  "(file_ext st = ''png'' \<longrightarrow> input_router st = Inr OCR) \<and>
   (file_ext st = ''pdf'' \<longrightarrow> input_router st = Inr PDF_Parser) \<and>
   (file_ext st = ''csv'' \<longrightarrow> input_router st = Inr CSV_Parser) \<and>
   (file_ext st \<notin> {''png'', ''pdf'', ''csv''} \<longrightarrow>
      input_router st = Inl (ValueError ''Invalid file type''))"
  by (simp add: input_router_def)

theorem input_router_total_witness:
  "input_router \<lparr>input = ''x'', file_ext = ''png'', text = [], instances = [], exclude_filter = []\<rparr>
     = Inr OCR \<and>
   input_router \<lparr>input = ''x'', file_ext = ''pdf'', text = [], instances = [], exclude_filter = []\<rparr>
     = Inr PDF_Parser \<and>
   input_router \<lparr>input = ''x'', file_ext = ''csv'', text = [], instances = [], exclude_filter = []\<rparr>
     = Inr CSV_Parser \<and>
   input_router \<lparr>input = ''x'', file_ext = ''PNG'', text = [], instances = [], exclude_filter = []\<rparr>
     = Inl (ValueError ''Invalid file type'')"
  using
    input_router_total [of "\<lparr>input = ''x'', file_ext = ''png'', text = [], instances = [], exclude_filter = []\<rparr>"]
    input_router_total [of "\<lparr>input = ''x'', file_ext = ''pdf'', text = [], instances = [], exclude_filter = []\<rparr>"]
    input_router_total [of "\<lparr>input = ''x'', file_ext = ''csv'', text = [], instances = [], exclude_filter = []\<rparr>"]
    input_router_total [of "\<lparr>input = ''x'', file_ext = ''PNG'', text = [], instances = [], exclude_filter = []\<rparr>"]
  by simp

section \<open>The extracted table\<close>

lemma columns_loop_concat:
  "columns_loop fmt out zs =
     out @ concat (map (\<lambda>ic. snd ic @ '': '' @ fmt (fst ic) @ [CHR 0x0A]) zs)"
  by (induction zs arbitrary: out) simp_all

lemma zip_cells_by_position:
  assumes "length cells = length cols"
  shows "map f (zip cells cols) = map (\<lambda>j. f (cells ! j, cols ! j)) [0..<length cols]"
  using assms by (intro nth_equalityI) simp_all

lemma columns_loop_lines:
  assumes "length cells = length cols"
  shows "columns_loop fmt out (zip cells cols) = out @ column_lines fmt cols cells"
  by (simp add: columns_loop_concat zip_cells_by_position [OF assms] column_lines_def)

lemma rows_loop_blocks:
  assumes "list_all (\<lambda>row. length (snd row) = length cols) rs"
  shows "rows_loop fmt cols out rs = out @ concat (map (label_block fmt cols) rs)"
  using assms
proof (induction rs arbitrary: out)
  case Nil
  then show ?case by simp
next
  case (Cons r rs)
  then have len: "length (snd r) = length cols"
    and rest: "list_all (\<lambda>row. length (snd row) = length cols) rs"
    by simp_all
  have head: "columns_loop fmt (out @ ''Index: '' @ fmt (fst r) @ [CHR 0x0A]) (zip (snd r) cols)
                @ [CHR 0x0A] = out @ label_block fmt cols r"
    by (simp add: columns_loop_lines [OF len] label_block_def)
  from Cons.IH [OF rest, of "out @ label_block fmt cols r"] head show ?case
    by simp
qed

text \<open>When every label prints as the position of its record, the blocks are the ones of the ordinals.\<close>

lemma label_blocks_ordinal:
  assumes "\<forall>i < length rs. fmt (fst (rs ! i)) = str_nat i"
  shows "map (label_block fmt cols) rs =
         map (\<lambda>i. record_block fmt cols i (snd (rs ! i))) [0..<length rs]"
  using assms by (intro nth_equalityI) (simp_all add: label_block_def record_block_def)

text \<open>
  Claim C8, as amended: the extractor keeps no count of the records, it prints the index
  label the frame carries for each. For a frame with \<open>N\<close> records, the extracted text is
  the concatenation of exactly \<open>N\<close> blocks, in the order of the records; the block of a
  record is the line \<^verbatim>\<open>Index: \<close> with the index label of the record, then one line
  \<^verbatim>\<open>column: value\<close> per column in the declared order, then an empty line. When the
  label of every record prints as the position of the record, counted from 0 (the
  default index of a frame), the first line of block \<open>i\<close> is \<^verbatim>\<open>Index: i\<close>.
\<close>

theorem csv_parser_tool_label_blocks:
  assumes "read_csv (input st) = Inr df" and "frame_shape df"
  shows "csv_parser_tool read_csv fmt st =
           Inr (st\<lparr>text := concat (map (label_block fmt (columns df)) (iterrows df))\<rparr>) \<and>
         length (map (label_block fmt (columns df)) (iterrows df)) = length (iterrows df) \<and>
         ((\<forall>i < length (iterrows df). fmt (fst (iterrows df ! i)) = str_nat i) \<longrightarrow>
            csv_parser_tool read_csv fmt st =
              Inr (st\<lparr>text := concat (map (\<lambda>i. record_block fmt (columns df) i (snd (iterrows df ! i)))
                                         [0..<length (iterrows df)])\<rparr>))"
proof -
  from assms have run: "csv_parser_tool read_csv fmt st =
      Inr (st\<lparr>text := concat (map (label_block fmt (columns df)) (iterrows df))\<rparr>)"
    using rows_loop_blocks [of "columns df" "iterrows df" fmt "[]"]
    by (simp add: csv_parser_tool_def frame_shape_def)
  then show ?thesis
    using label_blocks_ordinal [of "iterrows df" fmt "columns df"] by simp
qed

theorem csv_parser_tool_label_blocks_witness:
  "csv_parser_tool
     (\<lambda>b. Inr \<lparr>columns = [''name'', ''age''],
               iterrows = [(PInt 0, [PStr ''Ann'', PInt 41]), (PInt 1, [PStr ''Bob'', PInt 7])]\<rparr>)
     py_str
     \<lparr>input = ''name,age'', file_ext = ''csv'', text = [], instances = [], exclude_filter = []\<rparr>
   = Inr \<lparr>input = ''name,age'', file_ext = ''csv'',
          text = ''Index: 0'' @ [CHR 0x0A] @ ''name: Ann'' @ [CHR 0x0A] @ ''age: 41'' @ [CHR 0x0A]
                   @ [CHR 0x0A] @
                 ''Index: 1'' @ [CHR 0x0A] @ ''name: Bob'' @ [CHR 0x0A] @ ''age: 7'' @ [CHR 0x0A]
                   @ [CHR 0x0A],
          instances = [], exclude_filter = []\<rparr>"
proof -
  let ?df = "\<lparr>columns = [''name'', ''age''],
               iterrows = [(PInt 0, [PStr ''Ann'', PInt 41]), (PInt 1, [PStr ''Bob'', PInt 7])]\<rparr>"
  let ?st = "\<lparr>input = ''name,age'', file_ext = ''csv'', text = [], instances = [],
               exclude_filter = []\<rparr>"
  have shape: "frame_shape ?df"
    by (simp add: frame_shape_def)
  have labels: "\<forall>i < length (iterrows ?df). py_str (fst (iterrows ?df ! i)) = str_nat i"
  proof (intro allI impI)
    fix i assume "i < length (iterrows ?df)"
    then have "i = 0 \<or> i = 1" by auto
    then show "py_str (fst (iterrows ?df ! i)) = str_nat i"
      by (elim disjE) (simp_all add: str_int_def str_nat.simps)
  qed
  have read: "(\<lambda>b. Inr ?df) (input ?st) = Inr ?df"
    by simp
  from csv_parser_tool_label_blocks [of "\<lambda>b. Inr ?df" ?st ?df py_str, OF read shape]
  have "(\<forall>i < length (iterrows ?df). py_str (fst (iterrows ?df ! i)) = str_nat i) \<longrightarrow>
        csv_parser_tool (\<lambda>b. Inr ?df) py_str ?st =
          Inr (?st\<lparr>text := concat (map (\<lambda>i. record_block py_str (columns ?df) i (snd (iterrows ?df ! i)))
                                      [0..<length (iterrows ?df)])\<rparr>)"
    by (rule conjunct2 [THEN conjunct2])
  then have "csv_parser_tool (\<lambda>b. Inr ?df) py_str ?st =
          Inr (?st\<lparr>text := concat (map (\<lambda>i. record_block py_str (columns ?df) i (snd (iterrows ?df ! i)))
                                      [0..<length (iterrows ?df)])\<rparr>)"
    using labels by (rule mp)
  then show ?thesis
    by (simp add: record_block_def column_lines_def upt_conv_Cons str_int_def str_nat.simps)
qed

text \<open>
  Claim C8 as it was stated fails: for the bytes \<^verbatim>\<open>a,b\<close>, \<^verbatim>\<open>1,2,3\<close>, \<^verbatim>\<open>4,5,6\<close> (three
  lines) pandas takes the first field of each record as its index label, since the
  records have one field more than the header. The frame has the columns \<^verbatim>\<open>a\<close> and
  \<^verbatim>\<open>b\<close> and the labels 1 and 4, and the blocks the extractor writes start with
  \<^verbatim>\<open>Index: 1\<close> and \<^verbatim>\<open>Index: 4\<close>, not with the ordinals 0 and 1.
\<close>

theorem csv_parser_tool_ordinal_counterexample:
  "csv_parser_tool
     (\<lambda>b. Inr \<lparr>columns = [''a'', ''b''],
               iterrows = [(PInt 1, [PInt 2, PInt 3]), (PInt 4, [PInt 5, PInt 6])]\<rparr>)
     py_str
     \<lparr>input = ''a,b'' @ [CHR 0x0A] @ ''1,2,3'' @ [CHR 0x0A] @ ''4,5,6'' @ [CHR 0x0A],
       file_ext = ''csv'', text = [], instances = [], exclude_filter = []\<rparr>
   = Inr \<lparr>input = ''a,b'' @ [CHR 0x0A] @ ''1,2,3'' @ [CHR 0x0A] @ ''4,5,6'' @ [CHR 0x0A],
          file_ext = ''csv'',
          text = ''Index: 1'' @ [CHR 0x0A] @ ''a: 2'' @ [CHR 0x0A] @ ''b: 3'' @ [CHR 0x0A]
                   @ [CHR 0x0A] @
                 ''Index: 4'' @ [CHR 0x0A] @ ''a: 5'' @ [CHR 0x0A] @ ''b: 6'' @ [CHR 0x0A]
                   @ [CHR 0x0A],
          instances = [], exclude_filter = []\<rparr> \<and>
   record_block py_str [''a'', ''b''] 0 [PInt 2, PInt 3] @
   record_block py_str [''a'', ''b''] 1 [PInt 5, PInt 6]
   = ''Index: 0'' @ [CHR 0x0A] @ ''a: 2'' @ [CHR 0x0A] @ ''b: 3'' @ [CHR 0x0A] @ [CHR 0x0A] @
     ''Index: 1'' @ [CHR 0x0A] @ ''a: 5'' @ [CHR 0x0A] @ ''b: 6'' @ [CHR 0x0A] @ [CHR 0x0A] \<and>
   ''Index: 1'' @ [CHR 0x0A] @ ''a: 2'' @ [CHR 0x0A] @ ''b: 3'' @ [CHR 0x0A] @ [CHR 0x0A] @
   ''Index: 4'' @ [CHR 0x0A] @ ''a: 5'' @ [CHR 0x0A] @ ''b: 6'' @ [CHR 0x0A] @ [CHR 0x0A]
   \<noteq> record_block py_str [''a'', ''b''] 0 [PInt 2, PInt 3] @
     record_block py_str [''a'', ''b''] 1 [PInt 5, PInt 6]"
  by (simp add: csv_parser_tool_def record_block_def column_lines_def upt_conv_Cons str_int_def
      str_nat.simps)

section \<open>The clause of excluded categories\<close>

lemma exclusion_items_concat:
  "exclusion_items out items = out @ concat (map (\<lambda>item. '' '' @ item @ '','') items)"
  by (induction items arbitrary: out) simp_all

text \<open>
  Claim C7: the clause is empty for the empty filter. For a filter that is not empty it
  is the words \<^verbatim>\<open>except PHI instances of the type\<close> (after the blank that separates the
  clause from the sentence before it), then every category but the last, each followed by
  a comma, then \<^verbatim>\<open>and\<close> when there is more than one category, then the last category and
  a period; for three categories this reads \<^verbatim>\<open>except PHI instances of the type A, B, and C.\<close>
\<close>

theorem get_exclusion_clause:
  "get_exclusion [] = [] \<and>
   (fl \<noteq> [] \<longrightarrow>
      get_exclusion fl =
        '' except PHI instances of the type''
          @ concat (map (\<lambda>item. '' '' @ item @ '','') (butlast fl))
          @ (if length fl > 1 then '' and'' else [])
          @ '' '' @ last fl @ ''.'') \<and>
   get_exclusion [a] = '' except PHI instances of the type '' @ a @ ''.'' \<and>
   get_exclusion [a, b, c] =
     '' except PHI instances of the type '' @ a @ '', '' @ b @ '', and '' @ c @ ''.''"
  by (simp add: get_exclusion_def exclusion_items_concat Let_def)

theorem get_exclusion_clause_witness:
  "get_exclusion [''Names'', ''Telephone numbers'', ''Email addresses''] =
     '' except PHI instances of the type Names, Telephone numbers, and Email addresses.''"
  using get_exclusion_clause [of "[''Names'', ''Telephone numbers'', ''Email addresses'']"]
  by simp

section \<open>The two parsing fallbacks\<close>

subsection \<open>Brackets and surrounding whitespace\<close>

lemma find_in_shift: "find_in sub t i = map_option (\<lambda>p. p + i) (find_in sub t 0)"
proof (induction t arbitrary: i)
  case Nil
  then show ?case by simp
next
  case (Cons c cs)
  from Cons [of "Suc i"] Cons [of "Suc 0"] show ?case
    by (simp add: option.map_comp comp_def)
qed

lemma rfind_in_shift: "rfind_in sub t i = map_option (\<lambda>p. p + i) (rfind_in sub t 0)"
proof (induction t arbitrary: i)
  case Nil
  then show ?case by simp
next
  case (Cons c cs)
  from Cons [of "Suc i"] Cons [of "Suc 0"] show ?case
    by (simp add: option.map_comp comp_def split: option.splits)
qed

lemma find_in_absent: "x \<notin> set t \<Longrightarrow> find_in [x] t i = None"
  by (induction t arbitrary: i) auto

lemma rfind_in_absent: "x \<notin> set t \<Longrightarrow> rfind_in [x] t i = None"
  by (induction t arbitrary: i) auto

lemma find_in_skip: "x \<notin> set a \<Longrightarrow> find_in [x] (a @ s) i = find_in [x] s (i + length a)"
  by (induction a arbitrary: i) auto

lemma rfind_in_skip: "x \<notin> set a \<Longrightarrow> rfind_in [x] (a @ s) i = rfind_in [x] s (i + length a)"
  by (induction a arbitrary: i) (auto split: option.splits)

lemma find_in_trail: "x \<notin> set b \<Longrightarrow> find_in [x] (s @ b) i = find_in [x] s i"
  by (induction s arbitrary: i) (auto simp: find_in_absent)

lemma rfind_in_trail: "x \<notin> set b \<Longrightarrow> rfind_in [x] (s @ b) i = rfind_in [x] s i"
  by (induction s arbitrary: i) (auto simp: rfind_in_absent split: option.splits)

lemma find_in_bound: "find_in [x] t i = Some p \<Longrightarrow> i \<le> p \<and> p < i + length t"
  by (induction t arbitrary: i) (fastforce split: if_splits)+

lemma rfind_in_bound: "rfind_in [x] t i = Some p \<Longrightarrow> i \<le> p \<and> p < i + length t"
  by (induction t arbitrary: i) (fastforce split: if_splits option.splits)+

lemma rev_dropWhile_takeWhile:
  "rev (dropWhile P (rev xs)) @ rev (takeWhile P (rev xs)) = xs"
proof -
  have "rev (dropWhile P (rev xs)) @ rev (takeWhile P (rev xs)) =
        rev (takeWhile P (rev xs) @ dropWhile P (rev xs))"
    by (simp only: rev_append)
  also have "\<dots> = rev (rev xs)" by (simp only: takeWhile_dropWhile_id)
  finally show ?thesis by simp
qed

lemma py_strip_decompose:
  obtains a b where "c = a @ py_strip c @ b" "\<forall>x \<in> set a. isspace x" "\<forall>x \<in> set b. isspace x"
proof
  let ?d = "dropWhile isspace c"
  show "c = takeWhile isspace c @ py_strip c @ rev (takeWhile isspace (rev ?d))"
  proof -
    have "?d = py_strip c @ rev (takeWhile isspace (rev ?d))"
      unfolding py_strip_def by (simp only: rev_dropWhile_takeWhile)
    moreover have "c = takeWhile isspace c @ ?d" by simp
    ultimately show ?thesis by simp
  qed
  show "\<forall>x \<in> set (takeWhile isspace c). isspace x"
    by (auto dest: set_takeWhileD)
  show "\<forall>x \<in> set (rev (takeWhile isspace (rev ?d))). isspace x"
    by (auto dest: set_takeWhileD)
qed

lemma py_strip_idem: "py_strip (py_strip c) = py_strip c"
proof -
  let ?d = "dropWhile isspace c"
  let ?s = "py_strip c"
  have rs: "rev ?s = dropWhile isspace (rev ?d)" by (simp add: py_strip_def)
  have front: "dropWhile isspace ?s = ?s"
  proof (cases "?s = []")
    case True
    then show ?thesis by simp
  next
    case False
    obtain b where d: "?d = ?s @ b"
    proof
      show "?d = ?s @ rev (takeWhile isspace (rev ?d))"
        unfolding py_strip_def by (simp only: rev_dropWhile_takeWhile)
    qed
    with False have "?d \<noteq> []" and "hd ?s = hd ?d" by auto
    then have "\<not> isspace (hd ?s)" using hd_dropWhile [of isspace c] by simp
    with False show ?thesis by (cases ?s) simp_all
  qed
  have "py_strip ?s = rev (dropWhile isspace (rev (dropWhile isspace ?s)))"
    by (simp add: py_strip_def)
  also have "\<dots> = rev (dropWhile isspace (rev ?s))" by (simp only: front)
  also have "\<dots> = rev (dropWhile isspace (dropWhile isspace (rev ?d)))" by (simp only: rs)
  also have "\<dots> = rev (dropWhile isspace (rev ?d))" by simp
  also have "\<dots> = ?s" by (simp add: py_strip_def)
  finally show ?thesis .
qed

text \<open>
  The detection stage looks for the brackets in the body as it came, the classification
  stage in the stripped body. Both find the same text.
\<close>

lemma bracket_text_strip: "bracket_text (py_strip c) = bracket_text c"
proof -
  obtain a b where c: "c = a @ py_strip c @ b"
    and a: "\<forall>x \<in> set a. isspace x" and b: "\<forall>x \<in> set b. isspace x"
    by (rule py_strip_decompose)
  let ?s = "py_strip c"
  have no: "\<not> isspace CHR ''[''" "\<not> isspace CHR '']''" by (simp_all add: isspace_def)
  with a b have out: "CHR ''['' \<notin> set a" "CHR ''['' \<notin> set b" "CHR '']'' \<notin> set a" "CHR '']'' \<notin> set b"
    by auto
  have "py_find c ''['' 0 = find_in ''['' (a @ ?s @ b) 0"
    using c by (simp add: py_find_def)
  also have "\<dots> = find_in ''['' ?s (length a)"
    using out by (simp add: find_in_skip find_in_trail)
  finally have f: "py_find c ''['' 0 = map_option (\<lambda>p. p + length a) (py_find ?s ''['' 0)"
    using find_in_shift [of "''[''" ?s "length a"] by (simp add: py_find_def)
  have "py_rfind c '']'' = rfind_in '']'' (a @ ?s @ b) 0"
    using c by (simp add: py_rfind_def)
  also have "\<dots> = rfind_in '']'' ?s (length a)"
    using out by (simp add: rfind_in_skip rfind_in_trail)
  finally have r: "py_rfind c '']'' = map_option (\<lambda>p. p + length a) (py_rfind ?s '']'')"
    using rfind_in_shift [of "'']''" ?s "length a"] by (simp add: py_rfind_def)
  show ?thesis
  proof (cases "py_find ?s ''['' 0")
    case None
    with f show ?thesis by (simp add: bracket_text_def)
  next
    case (Some i)
    note fi = this
    show ?thesis
    proof (cases "py_rfind ?s '']''")
      case None
      with fi f r show ?thesis by (simp add: bracket_text_def)
    next
      case (Some j)
      from fi have i: "i < length ?s"
        using find_in_bound [of "CHR ''[''" ?s 0 i] by (simp add: py_find_def)
      from Some have j: "j < length ?s"
        using rfind_in_bound [of "CHR '']''" ?s 0 j] by (simp add: py_rfind_def)
      have "slice c (i + length a) (j + length a + 1) = take (j + 1 - i) (drop (i + length a) (a @ ?s @ b))"
        using c by (simp add: slice_def)
      also have "\<dots> = take (j + 1 - i) (drop i ?s @ b)"
        using i by (simp add: add.commute)
      also have "\<dots> = take (j + 1 - i) (drop i ?s)"
        using i j by simp
      finally have "slice c (i + length a) (j + length a + 1) = slice ?s i (j + 1)"
        by (simp add: slice_def)
      with fi Some f r show ?thesis by (simp add: bracket_text_def)
    qed
  qed
qed

lemma array_text_strip: "array_text (py_strip c) = array_text c"
  by (simp add: array_text_def py_strip_idem bracket_text_strip)

subsection \<open>What each stage appends\<close>

lemma phi_identifier_array_text:
  "phi_identifier json_loads body st =
     append_instances st
       (case array_text body of
          None \<Rightarrow> PList []
        | Some a \<Rightarrow> (case json_loads a of None \<Rightarrow> PList [] | Some v \<Rightarrow> v))"
  by (simp add: phi_identifier_def array_text_def bracket_text_def Let_def
      split: option.splits)

lemma phi_rationale_array_text:
  assumes "instances st \<noteq> []"
  shows "phi_rationale json_loads body st =
     Inr (append_instances st
       (case array_text body of
          None \<Rightarrow> last (instances st)
        | Some a \<Rightarrow> (case json_loads a of None \<Rightarrow> last (instances st) | Some v \<Rightarrow> v)))"
proof -
  have "phi_rationale json_loads body st =
     Inr (append_instances st
       (case array_text (py_strip body) of
          None \<Rightarrow> last (instances st)
        | Some a \<Rightarrow> (case json_loads a of None \<Rightarrow> last (instances st) | Some v \<Rightarrow> v)))"
    using assms
    by (simp add: phi_rationale_def array_text_def bracket_text_def Let_def py_strip_idem
        split: option.splits)
  then show ?thesis by (simp only: array_text_strip)
qed

text \<open>
  Claim C1: when the body of the response cannot be parsed (no brackets are found, or
  the JSON parser fails), the detection stage appends the empty list to the history,
  and the classification stage appends the entry that was last in the history before
  it ran; when that entry is not the empty list the two results differ.
\<close>

theorem parse_fallbacks_asymmetric:
  assumes "unparseable json_loads body"
  shows "phi_identifier json_loads body st = st\<lparr>instances := instances st @ [PList []]\<rparr> \<and>
         (instances st \<noteq> [] \<longrightarrow>
            phi_rationale json_loads body st =
              Inr (st\<lparr>instances := instances st @ [last (instances st)]\<rparr>)) \<and>
         (instances st \<noteq> [] \<and> last (instances st) \<noteq> PList [] \<longrightarrow>
            phi_rationale json_loads body st \<noteq> Inr (phi_identifier json_loads body st))"
proof -
  from assms have d: "phi_identifier json_loads body st = append_instances st (PList [])"
    by (simp add: phi_identifier_array_text unparseable_def split: option.splits)
  from assms have c: "phi_rationale json_loads body st =
      Inr (append_instances st (last (instances st)))" if "instances st \<noteq> []"
    using that by (simp add: phi_rationale_array_text unparseable_def split: option.splits)
  have "append_instances st x \<noteq> append_instances st y" if "x \<noteq> y" for x y
  proof
    assume "append_instances st x = append_instances st y"
    then have "instances (append_instances st x) = instances (append_instances st y)" by simp
    with that show False by (simp add: append_instances_def)
  qed
  with d c show ?thesis by (auto simp: append_instances_def)
qed

theorem parse_fallbacks_asymmetric_witness:
  "phi_identifier (\<lambda>s. if s = ''[]'' then Some (PList []) else None) ''Sorry, no JSON here.''
     \<lparr>input = ''x'', file_ext = ''png'', text = ''John'', instances = [PList [PStr ''John'']],
       exclude_filter = []\<rparr> =
   \<lparr>input = ''x'', file_ext = ''png'', text = ''John'',
     instances = [PList [PStr ''John''], PList []], exclude_filter = []\<rparr> \<and>
   phi_rationale (\<lambda>s. if s = ''[]'' then Some (PList []) else None) ''Sorry, no JSON here.''
     \<lparr>input = ''x'', file_ext = ''png'', text = ''John'', instances = [PList [PStr ''John'']],
       exclude_filter = []\<rparr> =
   Inr \<lparr>input = ''x'', file_ext = ''png'', text = ''John'',
     instances = [PList [PStr ''John''], PList [PStr ''John'']], exclude_filter = []\<rparr>"
proof -
  let ?loads = "\<lambda>s. if s = ''[]'' then Some (PList []) else None"
  have "unparseable ?loads ''Sorry, no JSON here.''"
    by (simp add: unparseable_def array_text_def bracket_text_def py_strip_def isspace_def
        py_find_def py_rfind_def)
  from parse_fallbacks_asymmetric [OF this,
      of "\<lparr>input = ''x'', file_ext = ''png'', text = ''John'', instances = [PList [PStr ''John'']],
       exclude_filter = []\<rparr>"]
  show ?thesis by simp
qed

text \<open>
  Claim C6: starting from an empty history, the history has one entry after the
  detection stage and two after the classification stage, whatever the two responses
  and the parser are; the classification stage does not fail, and the entry of the
  detection stage is still the first one.
\<close>

theorem findings_history_lengths:
  "\<exists>d c st2.
     instances (st\<lparr>instances := []\<rparr>) = [] \<and>
     instances (phi_identifier json_loads r1 (st\<lparr>instances := []\<rparr>)) = [d] \<and>
     phi_rationale json_loads r2 (phi_identifier json_loads r1 (st\<lparr>instances := []\<rparr>)) = Inr st2 \<and>
     instances st2 = [d, c]"
  by (simp add: phi_identifier_array_text phi_rationale_array_text append_instances_def)

theorem findings_history_lengths_witness:
  "instances (phi_identifier (\<lambda>s. if s = ''[]'' then Some (PList []) else None) ''[]''
      \<lparr>input = ''x'', file_ext = ''png'', text = ''John'', instances = [], exclude_filter = []\<rparr>)
     = [PList []] \<and>
   phi_rationale (\<lambda>s. if s = ''[]'' then Some (PList []) else None) ''no''
     (phi_identifier (\<lambda>s. if s = ''[]'' then Some (PList []) else None) ''[]''
        \<lparr>input = ''x'', file_ext = ''png'', text = ''John'', instances = [], exclude_filter = []\<rparr>)
     = Inr \<lparr>input = ''x'', file_ext = ''png'', text = ''John'', instances = [PList [], PList []],
            exclude_filter = []\<rparr>"
proof -
  let ?loads = "\<lambda>s. if s = ''[]'' then Some (PList []) else None"
  let ?st = "\<lparr>input = ''x'', file_ext = ''png'', text = ''John'', instances = [], exclude_filter = []\<rparr>"
  from findings_history_lengths [of ?st ?loads "''[]''" "''no''"]
  obtain d c st2 where one: "instances (phi_identifier ?loads ''[]'' ?st) = [d]"
    and two: "phi_rationale ?loads ''no'' (phi_identifier ?loads ''[]'' ?st) = Inr st2"
    and both: "instances st2 = [d, c]"
    by auto
  have d: "phi_identifier ?loads ''[]'' ?st = ?st\<lparr>instances := [PList []]\<rparr>"
    by (simp add: phi_identifier_def append_instances_def py_strip_def isspace_def)
  have "phi_rationale ?loads ''no'' (?st\<lparr>instances := [PList []]\<rparr>) =
          Inr (?st\<lparr>instances := [PList [], PList []]\<rparr>)"
    by (simp add: phi_rationale_def append_instances_def py_strip_def isspace_def py_find_def
        py_rfind_def)
  with d one two both show ?thesis by simp
qed

section \<open>The accepted spans\<close>

lemma find_loop_cases:
  "(\<exists>p. s \<le> p \<and> occurs_at t val p \<and> \<not> overlapping iwp p val \<and>
        (\<forall>q. s \<le> q \<and> q < p \<and> occurs_at t val q \<longrightarrow> overlapping iwp q val) \<and>
        find_loop t val ptype inst iwp s = iwp @ [new_span p val ptype inst]) \<or>
   ((\<forall>q. s \<le> q \<and> occurs_at t val q \<longrightarrow> overlapping iwp q val) \<and>
    find_loop t val ptype inst iwp s = iwp)"
proof (induction t val ptype inst iwp s rule: find_loop.induct)
  case (1 t val ptype inst iwp s)
  show ?case
  proof (cases "py_find t val s")
    case None
    then have "find_loop t val ptype inst iwp s = iwp"
      by (simp add: find_loop.simps)
    moreover from None have "\<forall>q. s \<le> q \<and> occurs_at t val q \<longrightarrow> overlapping iwp q val"
      using py_find_None by blast
    ultimately show ?thesis by blast
  next
    case (Some pos)
    note found = py_find_Some [OF Some]
    show ?thesis
    proof (cases "overlapping iwp pos val")
      case False
      with Some have "find_loop t val ptype inst iwp s = iwp @ [new_span pos val ptype inst]"
        by (simp add: find_loop.simps new_span_def)
      with found False show ?thesis by blast
    next
      case True
      with Some have step: "find_loop t val ptype inst iwp s = find_loop t val ptype inst iwp (pos + 1)"
        by (simp add: find_loop.simps)
      have before: "overlapping iwp q val" if "s \<le> q" "q < pos + 1" "occurs_at t val q" for q
      proof (cases "q = pos")
        case True
        with \<open>overlapping iwp pos val\<close> show ?thesis by simp
      next
        case False
        with that have "q < pos" by simp
        with found(3) [OF that(1)] that(3) show ?thesis by blast
      qed
      from "1.IH" [OF Some] True
      consider (hit) p where "pos + 1 \<le> p" "occurs_at t val p" "\<not> overlapping iwp p val"
          "\<forall>q. pos + 1 \<le> q \<and> q < p \<and> occurs_at t val q \<longrightarrow> overlapping iwp q val"
          "find_loop t val ptype inst iwp (pos + 1) = iwp @ [new_span p val ptype inst]"
        | (miss) "\<forall>q. pos + 1 \<le> q \<and> occurs_at t val q \<longrightarrow> overlapping iwp q val"
          "find_loop t val ptype inst iwp (pos + 1) = iwp"
        by blast
      then show ?thesis
      proof cases
        case hit
        from hit(1) found(1) have "s \<le> p" by simp
        moreover have "\<forall>q. s \<le> q \<and> q < p \<and> occurs_at t val q \<longrightarrow> overlapping iwp q val"
          using before hit(4) by (metis not_le_imp_less)
        ultimately show ?thesis using hit step by auto
      next
        case miss
        have "\<forall>q. s \<le> q \<and> occurs_at t val q \<longrightarrow> overlapping iwp q val"
          using before miss(1) by (metis not_le_imp_less)
        with miss step show ?thesis by simp
      qed
    qed
  qed
qed

lemma overlapping_iff:
  "overlapping iwp p val \<longleftrightarrow> (\<exists>e \<in> set iwp. p < end e \<and> start e < p + length val)"
  by (simp add: overlapping_def list_ex_iff not_le)

lemma not_overlapping_disjoint:
  "\<not> overlapping iwp p val \<Longrightarrow> e \<in> set iwp \<Longrightarrow> disjoint_spans e (new_span p val ptype inst)"
  by (auto simp: overlapping_iff disjoint_spans_def new_span_def)

lemma free_at_iff:
  assumes "list_all (anchored t) iwp" and "val \<noteq> []"
  shows "free_at iwp p val \<longleftrightarrow> \<not> overlapping iwp p val"
proof -
  have "({p..<p + length val} \<inter> {start e..<end e} = {}) \<longleftrightarrow> \<not> (p < end e \<and> start e < p + length val)"
    if "e \<in> set iwp" for e
  proof -
    from assms(1) that have a: "end e = start e + length (value e)" "value e = [] \<longrightarrow> start e = 0"
      by (simp_all add: list_all_iff anchored_def)
    from assms(2) have n: "0 < length val" by simp
    show ?thesis
    proof (cases "value e = []")
      case True
      with a show ?thesis by simp
    next
      case False
      then have ne: "start e < end e" using a by simp
      have "max p (start e) \<in> {p..<p + length val} \<inter> {start e..<end e}"
        if "p < end e" "start e < p + length val"
        using that n ne by auto
      then show ?thesis by fastforce
    qed
  qed
  then show ?thesis by (auto simp: free_at_def overlapping_iff)
qed

lemma find_loop_empty:
  "find_loop t [] ptype inst iwp 0 = iwp @ [new_span 0 [] ptype inst]"
proof -
  have here: "occurs_at t [] 0" "\<not> overlapping iwp 0 []"
    by (simp_all add: occurs_at_def overlapping_iff)
  from find_loop_cases [of 0 t "[]" iwp ptype inst]
  consider (hit) p where "\<forall>q. 0 \<le> q \<and> q < p \<and> occurs_at t [] q \<longrightarrow> overlapping iwp q []"
      "find_loop t [] ptype inst iwp 0 = iwp @ [new_span p [] ptype inst]"
    | (miss) "\<forall>q. 0 \<le> q \<and> occurs_at t [] q \<longrightarrow> overlapping iwp q []"
    by blast
  then show ?thesis
  proof cases
    case hit
    have "p = 0"
    proof (rule ccontr)
      assume "p \<noteq> 0"
      with hit(1) here show False by auto
    qed
    with hit(2) show ?thesis by simp
  next
    case miss
    with here show ?thesis by auto
  qed
qed

lemma find_loop_anchored:
  assumes "list_all (anchored t) iwp"
  shows "list_all (anchored t) (find_loop t val ptype inst iwp 0)"
proof (cases "val = []")
  case True
  have "anchored t (new_span 0 [] ptype inst)"
    by (simp add: anchored_def new_span_def occurs_at_def)
  with assms True show ?thesis by (simp add: find_loop_empty)
next
  case False
  from find_loop_cases [of 0 t val iwp ptype inst]
  consider (hit) p where "occurs_at t val p"
      "find_loop t val ptype inst iwp 0 = iwp @ [new_span p val ptype inst]"
    | (miss) "find_loop t val ptype inst iwp 0 = iwp"
    by blast
  then show ?thesis
  proof cases
    case hit
    with False have "anchored t (new_span p val ptype inst)"
      by (simp add: anchored_def new_span_def)
    with assms hit(2) show ?thesis by simp
  next
    case miss
    with assms show ?thesis by simp
  qed
qed

lemma find_loop_disjoint:
  assumes "sorted_wrt disjoint_spans iwp"
  shows "sorted_wrt disjoint_spans (find_loop t val ptype inst iwp s)"
proof -
  from find_loop_cases [of s t val iwp ptype inst]
  consider (hit) p where "\<not> overlapping iwp p val"
      "find_loop t val ptype inst iwp s = iwp @ [new_span p val ptype inst]"
    | (miss) "find_loop t val ptype inst iwp s = iwp"
    by blast
  then show ?thesis
  proof cases
    case hit
    with assms show ?thesis
      by (simp add: sorted_wrt_append not_overlapping_disjoint)
  next
    case miss
    with assms show ?thesis by simp
  qed
qed

lemma process_instance_invariants:
  assumes "process_instance t iwp inst = Inr iwp'"
  shows "list_all (anchored t) iwp \<Longrightarrow> list_all (anchored t) iwp'"
    and "sorted_wrt disjoint_spans iwp \<Longrightarrow> sorted_wrt disjoint_spans iwp'"
  using assms
  by (auto simp: process_instance_def find_loop_anchored find_loop_disjoint
      split: pyval.splits option.splits if_splits)

lemma for_instances_invariants:
  assumes "for_instances t iwp insts = Inr spans"
  shows "list_all (anchored t) iwp \<Longrightarrow> list_all (anchored t) spans"
    and "sorted_wrt disjoint_spans iwp \<Longrightarrow> sorted_wrt disjoint_spans spans"
  using assms
proof (induction insts arbitrary: iwp)
  case Nil
  { case 1 then show ?case by simp }
  { case 2 then show ?case by simp }
next
  case (Cons inst insts)
  { case 1
    then obtain iwp' where step: "process_instance t iwp inst = Inr iwp'"
      and rest: "for_instances t iwp' insts = Inr spans"
      by (auto split: sum.splits)
    from process_instance_invariants(1) [OF step 1(1)] Cons.IH(1) [OF _ rest]
    show ?case by simp }
  { case 2
    then obtain iwp' where step: "process_instance t iwp inst = Inr iwp'"
      and rest: "for_instances t iwp' insts = Inr spans"
      by (auto split: sum.splits)
    from process_instance_invariants(2) [OF step 2(1)] Cons.IH(2) [OF _ rest]
    show ?case by simp }
qed

lemma for_instances_append:
  "for_instances t iwp (xs @ ys) =
     (case for_instances t iwp xs of Inl e \<Rightarrow> Inl e | Inr iwp' \<Rightarrow> for_instances t iwp' ys)"
  by (induction xs arbitrary: iwp) (simp_all split: sum.splits)

lemma py_strip_whitespace:
  assumes "\<forall>c \<in> set s. isspace c"
  shows "py_strip s = []"
proof -
  from assms have d: "dropWhile isspace s = []" by simp
  show ?thesis unfolding py_strip_def d by simp
qed

text \<open>The definitions that evaluate the resolver on a given text and list of findings.\<close>

lemmas resolver_eval = process_instance_def find_loop.simps py_strip_def isspace_def py_find_def
        overlapping_def dict_get_def

text \<open>
  Claim C3: any two spans the resolver accepted, at different places of the list of
  accepted spans, do not overlap: one of them ends where or before the other starts.
\<close>

theorem resolved_spans_non_overlapping:
  assumes "for_instances t [] fs = Inr spans"
    and "i < length spans" and "j < length spans" and "i \<noteq> j"
  shows "end (spans ! i) \<le> start (spans ! j) \<or> end (spans ! j) \<le> start (spans ! i)"
proof -
  from for_instances_invariants(2) [OF assms(1)]
  have pw: "\<And>a b. a < b \<Longrightarrow> b < length spans \<Longrightarrow> disjoint_spans (spans ! a) (spans ! b)"
    by (simp add: sorted_wrt_iff_nth_less)
  from assms(4) consider "i < j" | "j < i" by linarith
  then show ?thesis
  proof cases
    case 1
    from pw [OF 1 assms(3)] show ?thesis by (simp add: disjoint_spans_def)
  next
    case 2
    from pw [OF 2 assms(2)] show ?thesis by (auto simp: disjoint_spans_def)
  qed
qed

theorem resolved_spans_non_overlapping_witness:
  "for_instances ''Patient John Doe, SSN 123-45-6789, seen 2020-01-01.'' []
     [PDict [(''value'', PStr ''John Doe''), (''start'', PInt 8), (''end'', PInt 16)],
      PDict [(''value'', PStr ''123-45-6789'')]]
   = Inr [\<lparr>start = 8, end = 16, value = ''John Doe'', phi_type = PStr ''Unknown'',
            original_instance = [(''value'', PStr ''John Doe''), (''start'', PInt 8), (''end'', PInt 16)]\<rparr>,
          \<lparr>start = 22, end = 33, value = ''123-45-6789'', phi_type = PStr ''Unknown'',
            original_instance = [(''value'', PStr ''123-45-6789'')]\<rparr>] \<and>
   (16::nat) \<le> 22"
proof -
  let ?t = "''Patient John Doe, SSN 123-45-6789, seen 2020-01-01.''"
  let ?fs = "[PDict [(''value'', PStr ''John Doe''), (''start'', PInt 8), (''end'', PInt 16)],
      PDict [(''value'', PStr ''123-45-6789'')]]"
  let ?spans = "[\<lparr>start = 8, end = 16, value = ''John Doe'', phi_type = PStr ''Unknown'',
            original_instance = [(''value'', PStr ''John Doe''), (''start'', PInt 8), (''end'', PInt 16)]\<rparr>,
          \<lparr>start = 22, end = 33, value = ''123-45-6789'', phi_type = PStr ''Unknown'',
            original_instance = [(''value'', PStr ''123-45-6789'')]\<rparr>]"
  have run: "for_instances ?t [] ?fs = Inr ?spans"
    by (simp add: process_instance_def find_loop.simps py_strip_def isspace_def py_find_def
        overlapping_def dict_get_def)
  from resolved_spans_non_overlapping [OF run, of 0 1] have "(16::nat) \<le> 22" by simp
  with run show ?thesis by simp
qed

text \<open>
  Claim C2, as amended: the resolver searches for the string form of the value with
  the whitespace at its ends removed, not for the value as it stands. For a finding
  whose value is true in Python's sense and whose stripped string form \<open>val\<close> is not
  empty, coming after findings for which the spans \<open>accepted\<close> were accepted, the
  resolver accepts exactly one span, at the leftmost offset at which \<open>val\<close> occurs in
  the text with a range that meets none of the accepted ranges; when there is no such
  offset it accepts nothing for this finding. It raises no error in either case.
\<close>

theorem span_resolver_leftmost_free:
  assumes prior: "for_instances t [] fs = Inr accepted"
    and v: "map_of d ''value'' = Some v" "truthy v"
    and val: "val = py_strip (py_str v)" "val \<noteq> []"
  shows "(\<exists>p. for_instances t [] (fs @ [PDict d]) =
                Inr (accepted @ [\<lparr>start = p, end = p + length val, value = val,
                   phi_type = dict_get d ''PHI type'' (dict_get d ''type'' (PStr ''Unknown'')),
                   original_instance = d\<rparr>]) \<and>
              occurs_at t val p \<and> free_at accepted p val \<and>
              (\<forall>q < p. occurs_at t val q \<longrightarrow> \<not> free_at accepted q val)) \<or>
         (for_instances t [] (fs @ [PDict d]) = Inr accepted \<and>
          (\<forall>q. occurs_at t val q \<longrightarrow> \<not> free_at accepted q val))"
proof -
  let ?ptype = "dict_get d ''PHI type'' (dict_get d ''type'' (PStr ''Unknown''))"
  from for_instances_invariants(1) [OF prior] have anch: "list_all (anchored t) accepted"
    by simp
  note free = free_at_iff [OF anch val(2)]
  have run: "for_instances t [] (fs @ [PDict d]) = Inr (find_loop t val ?ptype d accepted 0)"
    using prior v val(1) by (simp add: for_instances_append process_instance_def)
  from find_loop_cases [of 0 t val accepted ?ptype d]
  consider (hit) p where "occurs_at t val p" "\<not> overlapping accepted p val"
      "\<forall>q. q < p \<and> occurs_at t val q \<longrightarrow> overlapping accepted q val"
      "find_loop t val ?ptype d accepted 0 = accepted @ [new_span p val ?ptype d]"
    | (miss) "\<forall>q. occurs_at t val q \<longrightarrow> overlapping accepted q val"
      "find_loop t val ?ptype d accepted 0 = accepted"
    by auto
  then show ?thesis
  proof cases
    case hit
    with run free show ?thesis by (auto simp: new_span_def)
  next
    case miss
    with run free show ?thesis by auto
  qed
qed

theorem span_resolver_leftmost_free_witness:
  "for_instances ''abab'' [] [PDict [(''value'', PStr ''ab'')], PDict [(''value'', PStr '' ab '')]] =
     Inr [\<lparr>start = 0, end = 2, value = ''ab'', phi_type = PStr ''Unknown'',
            original_instance = [(''value'', PStr ''ab'')]\<rparr>,
          \<lparr>start = 2, end = 4, value = ''ab'', phi_type = PStr ''Unknown'',
            original_instance = [(''value'', PStr '' ab '')]\<rparr>] \<and>
   occurs_at ''abab'' ''ab'' 2 \<and>
   free_at [\<lparr>start = 0, end = 2, value = ''ab'', phi_type = PStr ''Unknown'',
            original_instance = [(''value'', PStr ''ab'')]\<rparr>] 2 ''ab''"
proof -
  let ?first = "\<lparr>start = 0, end = 2, value = ''ab'', phi_type = PStr ''Unknown'',
            original_instance = [(''value'', PStr ''ab'')]\<rparr>"
  let ?d = "[(''value'', PStr '' ab '')]"
  have prior: "for_instances ''abab'' [] [PDict [(''value'', PStr ''ab'')]] = Inr [?first]"
    by (simp add: resolver_eval)
  have run: "for_instances ''abab'' [] ([PDict [(''value'', PStr ''ab'')]] @ [PDict ?d]) =
     Inr ([?first] @ [\<lparr>start = 2, end = 2 + length ''ab'', value = ''ab'', phi_type = PStr ''Unknown'',
            original_instance = ?d\<rparr>])"
    by (simp add: resolver_eval)
  have val: "''ab'' = py_strip (py_str (PStr '' ab ''))" "''ab'' \<noteq> []"
    by (simp_all add: py_strip_def isspace_def)
  from span_resolver_leftmost_free [OF prior _ _ val, of ?d]
  have "occurs_at ''abab'' ''ab'' 2 \<and> free_at [?first] 2 ''ab''"
    unfolding run by (auto simp: dict_get_def)
  with run show ?thesis by simp
qed

text \<open>
  Claim C2 as it was stated fails: in the text \<^verbatim>\<open>x a\<close> the value \<^verbatim>\<open> a\<close> (a blank, then
  the letter) occurs at offset 1 and not before, and nothing was accepted before it, yet
  the span the resolver accepts is the range from 2 to 3, the stripped value.
\<close>

theorem span_resolver_literal_value_counterexample:
  "occurs_at ''x a'' '' a'' 1 \<and> \<not> occurs_at ''x a'' '' a'' 0 \<and> free_at [] 1 '' a'' \<and>
   for_instances ''x a'' [] [PDict [(''value'', PStr '' a'')]] =
     Inr [\<lparr>start = 2, end = 3, value = ''a'', phi_type = PStr ''Unknown'',
           original_instance = [(''value'', PStr '' a'')]\<rparr>]"
  by (simp add: resolver_eval occurs_at_def free_at_def)

text \<open>
  Claim C9: for a list of findings that is empty, and for an argument that is no list,
  the resolver returns the text as it is, and raises nothing.
\<close>

theorem highlight_identity:
  assumes "phi_instances = PList [] \<or> \<not> isinstance_list phi_instances"
  shows "highlight_phi_instances t phi_instances = Inr t"
  using assms by (auto simp: highlight_phi_instances_def)

theorem highlight_identity_witness:
  "highlight_phi_instances ''John Doe'' (PList []) = Inr ''John Doe'' \<and>
   highlight_phi_instances ''John Doe'' (PDict [(''value'', PStr ''John Doe'')]) = Inr ''John Doe'' \<and>
   highlight_phi_instances ''John Doe'' PNone = Inr ''John Doe''"
  using highlight_identity [of "PList []" "''John Doe''"]
    highlight_identity [of "PDict [(''value'', PStr ''John Doe'')]" "''John Doe''"]
    highlight_identity [of PNone "''John Doe''"]
  by simp

text \<open>
  Claim C10: the guard tests the value as it stands and the search uses the stripped
  value. A value that is a string of whitespace only, and not empty, passes the guard,
  its stripped form is empty, and the resolver accepts a span of length zero at offset
  0 for it, whatever the text and the spans accepted before.
\<close>

theorem whitespace_value_zero_length_span:
  assumes "map_of d ''value'' = Some (PStr s)" and "s \<noteq> []" and "\<forall>c \<in> set s. isspace c"
  shows "truthy (PStr s) \<and> py_strip (py_str (PStr s)) = [] \<and>
         process_instance t iwp (PDict d) =
           Inr (iwp @ [\<lparr>start = 0, end = 0, value = [],
                         phi_type = dict_get d ''PHI type'' (dict_get d ''type'' (PStr ''Unknown'')),
                         original_instance = d\<rparr>])"
  using assms
  by (simp add: process_instance_def py_strip_whitespace find_loop_empty new_span_def)

theorem whitespace_value_zero_length_span_witness:
  "process_instance ''abcdef'' [] (PDict [(''type'', PStr ''Names''), (''value'', PStr '' '')]) =
     Inr [\<lparr>start = 0, end = 0, value = [], phi_type = PStr ''Names'',
           original_instance = [(''type'', PStr ''Names''), (''value'', PStr '' '')]\<rparr>]"
proof -
  have "\<forall>c \<in> set '' ''. isspace c" by (simp add: isspace_def)
  from whitespace_value_zero_length_span [of "[(''type'', PStr ''Names''), (''value'', PStr '' '')]" "'' ''",
      OF _ _ this, of "''abcdef''" "[]"]
  show ?thesis by (simp add: dict_get_def)
qed

section \<open>Applying the markup\<close>

subsection \<open>The sort\<close>

lemma set_insort_desc: "set (insort_desc x ys) = insert x (set ys)"
  by (induction ys) auto

lemma set_sort_desc: "set (sort_desc xs) = set xs"
  by (induction xs) (simp_all add: sort_desc_def set_insort_desc)

lemma sorted_wrt_insort_desc:
  assumes "\<And>a b. R a b \<Longrightarrow> R b a"
  shows "sorted_wrt R (insort_desc x ys) \<longleftrightarrow> (\<forall>y \<in> set ys. R x y) \<and> sorted_wrt R ys"
  using assms by (induction ys) (auto simp: set_insort_desc)

lemma sort_desc_disjoint:
  "sorted_wrt disjoint_spans xs \<Longrightarrow> sorted_wrt disjoint_spans (sort_desc xs)"
proof (induction xs)
  case Nil
  then show ?case by (simp add: sort_desc_def)
next
  case (Cons x xs)
  have sym: "\<And>a b. disjoint_spans a b \<Longrightarrow> disjoint_spans b a"
    by (auto simp: disjoint_spans_def)
  from Cons have "sorted_wrt disjoint_spans (sort_desc xs)" "\<forall>y \<in> set xs. disjoint_spans x y"
    by simp_all
  then have "sorted_wrt disjoint_spans (insort_desc x (sort_desc xs))"
    by (simp add: sorted_wrt_insort_desc [OF sym] set_sort_desc)
  then show ?case by (simp add: sort_desc_def)
qed

lemma insort_desc_descending:
  "sorted_wrt (\<lambda>a b. start b \<le> start a) ys \<Longrightarrow>
   sorted_wrt (\<lambda>a b. start b \<le> start a) (insort_desc x ys)"
  by (induction ys) (auto simp: set_insort_desc)

lemma sort_desc_descending: "sorted_wrt (\<lambda>a b. start b \<le> start a) (sort_desc xs)"
proof (induction xs)
  case Nil
  then show ?case by (simp add: sort_desc_def)
next
  case (Cons x xs)
  from insort_desc_descending [OF Cons, of x] show ?case by (simp add: sort_desc_def)
qed

text \<open>In the sorted list every span ends where or before the spans in front of it start.\<close>

lemma sort_desc_chain:
  assumes "sorted_wrt disjoint_spans xs" and "\<forall>e \<in> set xs. start e < end e"
  shows "sorted_wrt (\<lambda>a b. end b \<le> start a) (sort_desc xs)"
proof -
  have "sorted_wrt (\<lambda>a b. disjoint_spans a b \<and> start b \<le> start a) (sort_desc xs)"
    using sort_desc_disjoint [OF assms(1)] sort_desc_descending [of xs]
    by (simp add: sorted_wrt_iff_nth_less)
  moreover have "end b \<le> start a"
    if "a \<in> set (sort_desc xs)" "b \<in> set (sort_desc xs)" "disjoint_spans a b \<and> start b \<le> start a"
    for a b
  proof -
    from that(1) assms(2) have "start a < end a" by (simp add: set_sort_desc)
    with that(3) show ?thesis by (auto simp: disjoint_spans_def)
  qed
  ultimately show ?thesis by (rule sorted_wrt_mono_rel [rotated])
qed

subsection \<open>Splices from the right\<close>

text \<open>
  With every span of positive length, the accepted spans have different starts, and
  sorting them by descending start puts every span to the right of all spans after it.
  A splice then leaves the text to the left of its span as it was, so the next splice
  finds its span at the original offsets.
\<close>

lemma filter_insort_desc_other:
  "start x \<noteq> p \<Longrightarrow>
   filter (\<lambda>s. start s = p) (insort_desc x ys) = filter (\<lambda>s. start s = p) ys"
  by (induction ys) auto

lemma filter_insort_desc_same:
  "\<forall>y \<in> set ys. start y \<noteq> start x \<Longrightarrow>
   filter (\<lambda>s. start s = start x) (insort_desc x ys) = [x]"
  by (induction ys) (auto simp: filter_empty_conv)

lemma filter_sort_desc:
  assumes "sorted_wrt (\<lambda>a b. start a \<noteq> start b) xs"
  shows "filter (\<lambda>s. start s = p) (sort_desc xs) = filter (\<lambda>s. start s = p) xs"
  using assms
proof (induction xs)
  case Nil
  then show ?case by (simp add: sort_desc_def)
next
  case (Cons x xs)
  then have others: "\<forall>y \<in> set xs. start y \<noteq> start x"
    and ih: "filter (\<lambda>s. start s = p) (sort_desc xs) = filter (\<lambda>s. start s = p) xs"
    by auto
  have unfold: "sort_desc (x # xs) = insort_desc x (sort_desc xs)"
    by (simp add: sort_desc_def)
  show ?case
  proof (cases "start x = p")
    case True
    from others have "\<forall>y \<in> set (sort_desc xs). start y \<noteq> start x"
      by (simp add: set_sort_desc)
    from filter_insort_desc_same [OF this] True
    have "filter (\<lambda>s. start s = p) (sort_desc (x # xs)) = [x]"
      by (simp add: unfold)
    moreover from others True have "filter (\<lambda>s. start s = p) xs = []"
      by (auto simp: filter_empty_conv)
    ultimately show ?thesis using True by simp
  next
    case False
    with ih show ?thesis by (simp add: unfold filter_insort_desc_other)
  qed
qed

lemma annotation_piece_sort_desc:
  assumes "sorted_wrt (\<lambda>a b. start a \<noteq> start b) xs"
  shows "annotation_piece t (sort_desc xs) p = annotation_piece t xs p"
  by (simp add: annotation_piece_def filter_sort_desc [OF assms] list_ex_iff set_sort_desc)

lemma plain_pieces:
  assumes "hi \<le> length t" and "\<And>p. lo \<le> p \<Longrightarrow> p < hi \<Longrightarrow> f p = [t ! p]"
  shows "concat (map f [lo..<hi]) = take (hi - lo) (drop lo t)"
proof -
  have eq: "map f [lo..<hi] = map (\<lambda>p. [t ! p]) [lo..<hi]"
    using assms(2) by simp
  have "concat (map f [lo..<hi]) = concat (map (\<lambda>p. [t ! p]) [lo..<hi])"
    by (simp only: eq)
  also have "\<dots> = map (\<lambda>p. t ! p) [lo..<hi]"
    by simp
  also have "\<dots> = take (hi - lo) (drop lo t)"
    using assms(1) by (intro nth_equalityI) simp_all
  finally show ?thesis .
qed

lemma empty_pieces:
  assumes "\<And>p. lo \<le> p \<Longrightarrow> p < hi \<Longrightarrow> f p = []"
  shows "concat (map f [lo..<hi]) = []"
  using assms by simp

lemma apply_highlighting_chain:
  assumes "sorted_wrt (\<lambda>a b. end b \<le> start a) D"
    and "\<forall>e \<in> set D. start e < end e \<and> end e \<le> b"
    and "b \<le> length t"
  shows "apply_highlighting (take b t @ R) D =
         concat (map (annotation_piece t D) [0..<b]) @ R"
  using assms
proof (induction D arbitrary: b R)
  case Nil
  have "concat (map (annotation_piece t []) [0..<b]) = take (b - 0) (drop 0 t)"
    using Nil(3) by (intro plain_pieces) (simp_all add: annotation_piece_def)
  then show ?case by simp
next
  case (Cons s ss)
  let ?m = "highlighted_value s"
  from Cons.prems have s: "start s < end s" "end s \<le> b" "b \<le> length t"
    and chain: "sorted_wrt (\<lambda>a b. end b \<le> start a) ss"
    and left: "\<forall>e \<in> set ss. start e < end e \<and> end e \<le> start s"
    by auto
  have splice: "take (start s) (take b t @ R) @ ?m @ drop (end s) (take b t @ R) =
                take (start s) t @ (?m @ take (b - end s) (drop (end s) t) @ R)"
    using s by (simp add: min_def drop_take)
  have ih: "apply_highlighting (take (start s) t @ (?m @ take (b - end s) (drop (end s) t) @ R)) ss =
            concat (map (annotation_piece t ss) [0..<start s]) @ ?m @ take (b - end s) (drop (end s) t) @ R"
    using Cons.IH [OF chain left, of "?m @ take (b - end s) (drop (end s) t) @ R"] s by simp
  have before: "annotation_piece t (s # ss) p = annotation_piece t ss p" if "p < start s" for p
    using that by (auto simp: annotation_piece_def)
  have at: "annotation_piece t (s # ss) (start s) = ?m"
  proof -
    from left have "filter (\<lambda>e. start e = start s) ss = []"
      by (auto simp: filter_empty_conv)
    with s show ?thesis by (simp add: annotation_piece_def)
  qed
  have inside: "annotation_piece t (s # ss) p = []" if "start s < p" "p < end s" for p
  proof -
    from left that have "filter (\<lambda>e. start e = p) ss = []"
      by (auto simp: filter_empty_conv)
    with that show ?thesis by (simp add: annotation_piece_def)
  qed
  have after: "annotation_piece t (s # ss) p = [t ! p]" if "end s \<le> p" "p < b" for p
  proof -
    from left that s have "filter (\<lambda>e. start e = p) ss = []"
      by (auto simp: filter_empty_conv)
    moreover from left that s have "\<not> list_ex (\<lambda>e. start e \<le> p \<and> p < end e) ss"
      by (auto simp: list_ex_iff)
    ultimately show ?thesis using that s by (simp add: annotation_piece_def)
  qed
  have range: "[0..<b] = [0..<start s] @ start s # [Suc (start s)..<end s] @ [end s..<b]"
  proof -
    have "[0..<b] = [0..<start s] @ [start s..<end s] @ [end s..<b]"
      using s by (metis le_add_diff_inverse less_imp_le_nat upt_add_eq_append zero_le le_trans)
    with s show ?thesis by (simp add: upt_conv_Cons)
  qed
  have c1: "map (annotation_piece t (s # ss)) [0..<start s] =
            map (annotation_piece t ss) [0..<start s]"
    using before by simp
  have c2: "concat (map (annotation_piece t (s # ss)) [Suc (start s)..<end s]) = []"
    using inside by (intro empty_pieces) simp_all
  have c3: "concat (map (annotation_piece t (s # ss)) [end s..<b]) =
            take (b - end s) (drop (end s) t)"
    using after s by (intro plain_pieces) simp_all
  have "concat (map (annotation_piece t (s # ss)) [0..<b]) =
        concat (map (annotation_piece t ss) [0..<start s]) @ ?m @ take (b - end s) (drop (end s) t)"
    unfolding range by (simp add: c1 c2 c3 at)
  with splice ih show ?case by simp
qed

lemma anchored_bounds:
  assumes "anchored t e" and "value e \<noteq> []"
  shows "start e < end e" and "end e \<le> length t"
proof -
  from assms(1) have o: "start e \<le> length t" "prefix (value e) (drop (start e) t)"
    and e: "end e = start e + length (value e)"
    by (simp_all add: anchored_def occurs_at_def)
  from assms(2) e show "start e < end e" by simp
  from o(2) have "length (value e) \<le> length (drop (start e) t)" by (rule prefix_length_le)
  with o(1) e show "end e \<le> length t" by simp
qed

text \<open>
  When no accepted span is empty, the text the resolver returns is the annotation of
  the original text with all accepted spans at once.
\<close>

lemma highlighting_is_reference_annotation:
  assumes "for_instances t [] fs = Inr spans" and "\<forall>e \<in> set spans. value e \<noteq> []"
  shows "highlight_phi_instances t (PList fs) = Inr (reference_annotation t spans)"
proof -
  from for_instances_invariants [OF assms(1)]
  have anch: "list_all (anchored t) spans" and disj: "sorted_wrt disjoint_spans spans"
    by simp_all
  have bounds: "\<forall>e \<in> set spans. start e < end e \<and> end e \<le> length t"
    using anch assms(2) anchored_bounds by (auto simp: list_all_iff)
  have starts: "sorted_wrt (\<lambda>a b. start a \<noteq> start b) spans"
  proof (rule sorted_wrt_mono_rel [OF _ disj])
    fix a b assume "a \<in> set spans" "b \<in> set spans" "disjoint_spans a b"
    with bounds show "start a \<noteq> start b" by (fastforce simp: disjoint_spans_def)
  qed
  have chain: "sorted_wrt (\<lambda>a b. end b \<le> start a) (sort_desc spans)"
    using disj bounds by (intro sort_desc_chain) simp_all
  have "apply_highlighting (take (length t) t @ []) (sort_desc spans) =
        concat (map (annotation_piece t (sort_desc spans)) [0..<length t]) @ []"
    using chain bounds by (intro apply_highlighting_chain) (simp_all add: set_sort_desc)
  moreover have "annotation_piece t (sort_desc spans) = annotation_piece t spans"
    by (rule ext) (rule annotation_piece_sort_desc [OF starts])
  ultimately have applied: "apply_highlighting t (sort_desc spans) =
        concat (map (annotation_piece t spans) [0..<length t])"
    by simp
  have last: "annotation_piece t spans (length t) = []"
  proof -
    from bounds have "filter (\<lambda>e. start e = length t) spans = []"
      by (fastforce simp: filter_empty_conv)
    then show ?thesis by (simp add: annotation_piece_def)
  qed
  have ref: "reference_annotation t spans = concat (map (annotation_piece t spans) [0..<length t])"
    by (simp add: reference_annotation_def last)
  show ?thesis
  proof (cases fs)
    case Nil
    with assms(1) have "spans = []" by simp
    then have "reference_annotation t spans = take (length t - 0) (drop 0 t)"
      unfolding ref by (intro plain_pieces) (simp_all add: annotation_piece_def)
    with Nil show ?thesis by (simp add: highlight_phi_instances_def)
  next
    case (Cons f fs')
    with assms(1) applied ref show ?thesis by (simp add: highlight_phi_instances_def)
  qed
qed

text \<open>
  Claim C4 says that the splices, applied from the right, give the annotation of the
  original text. The code does not keep it when a span of length zero was accepted: on
  the text \<^verbatim>\<open>abcdef\<close> and the findings with the values \<^verbatim>\<open>" "\<close> and \<^verbatim>\<open>"abc"\<close>, the
  accepted spans are the ranges from 0 to 0 and from 0 to 3. Both start at 0, so the
  sort leaves the empty span first; its markup is inserted at offset 0, and the second
  splice then cuts the first three characters of that markup instead of \<^verbatim>\<open>abc\<close>.
  The text returned is the one below, not the annotation of the original text.
\<close>

theorem highlight_whitespace_value_corrupts_markup:
  "highlight_phi_instances ''abcdef''
     (PList [PDict [(''value'', PStr '' '')], PDict [(''value'', PStr ''abc'')]]) =
   Inr (''<span class=\"phi-highlight\" title=\"PHI Type: Unknown\">abc</span>'' @
        ''an class=\"phi-highlight\" title=\"PHI Type: Unknown\"></span>abcdef'')"
  by (simp add: highlight_phi_instances_def resolver_eval sort_desc_def highlighted_value_def)

theorem highlight_whitespace_value_corrupts_markup_witness:
  "reference_annotation ''abcdef''
     [\<lparr>start = 0, end = 0, value = [], phi_type = PStr ''Unknown'',
        original_instance = [(''value'', PStr '' '')]\<rparr>,
      \<lparr>start = 0, end = 3, value = ''abc'', phi_type = PStr ''Unknown'',
        original_instance = [(''value'', PStr ''abc'')]\<rparr>] =
   ''<span class=\"phi-highlight\" title=\"PHI Type: Unknown\"></span>'' @
   ''<span class=\"phi-highlight\" title=\"PHI Type: Unknown\">abc</span>def'' \<and>
   highlight_phi_instances ''abcdef''
     (PList [PDict [(''value'', PStr '' '')], PDict [(''value'', PStr ''abc'')]]) \<noteq>
   Inr (reference_annotation ''abcdef''
     [\<lparr>start = 0, end = 0, value = [], phi_type = PStr ''Unknown'',
        original_instance = [(''value'', PStr '' '')]\<rparr>,
      \<lparr>start = 0, end = 3, value = ''abc'', phi_type = PStr ''Unknown'',
        original_instance = [(''value'', PStr ''abc'')]\<rparr>])"
proof -
  have r: "reference_annotation ''abcdef''
     [\<lparr>start = 0, end = 0, value = [], phi_type = PStr ''Unknown'',
        original_instance = [(''value'', PStr '' '')]\<rparr>,
      \<lparr>start = 0, end = 3, value = ''abc'', phi_type = PStr ''Unknown'',
        original_instance = [(''value'', PStr ''abc'')]\<rparr>] =
   ''<span class=\"phi-highlight\" title=\"PHI Type: Unknown\"></span>'' @
   ''<span class=\"phi-highlight\" title=\"PHI Type: Unknown\">abc</span>def''"
    by (simp add: reference_annotation_def annotation_piece_def highlighted_value_def
        upt_conv_Cons del: upt_Suc)
  show ?thesis
    unfolding r highlight_whitespace_value_corrupts_markup by simp
qed

end
